theory Spec2Isabelle
  imports Main
begin

section \<open>Python text primitives\<close>

text \<open>
  A Python \<open>str\<close> is modelled as a \<open>string\<close> whose characters are the code points
  U+0000 to U+00FF. On these code points the library functions used by
  \<open>mapper.py\<close> and \<open>reducer.py\<close> (\<open>str.strip\<close>, \<open>str.lower\<close>, \<open>str.split\<close>,
  \<open>re.findall\<close>, \<open>int\<close>, formatting of an \<open>int\<close>) are modelled character by character.
  Standard input is a list of lines, as the iteration \<open>for line in sys.stdin\<close> delivers
  them (a line may or may not carry its terminator); standard output is the list of
  lines printed. Python integers are \<open>int\<close>. Decoding of the input stream, write
  failures of the output stream and the interpreter's configurable bound on the length
  of decimal conversions (\<open>sys.set_int_max_str_digits\<close>) are outside the model.
\<close>

abbreviation TAB :: char where
  "TAB \<equiv> CHR 0x09"

abbreviation NEWLINE :: char where
  "NEWLINE \<equiv> CHR 0x0A"

definition py_isspace :: "char \<Rightarrow> bool" where
  \<comment> \<open>the characters \<open>str.strip()\<close> removes: \<open>str.isspace\<close> below U+0100\<close>
  "py_isspace c = (of_char c \<in> {9, 10, 11, 12, 13, 28, 29, 30, 31, 32, 133, 160 :: nat})"

definition py_strip :: "string \<Rightarrow> string" where
  "py_strip s = rev (dropWhile py_isspace (rev (dropWhile py_isspace s)))"

definition py_lower_char :: "char \<Rightarrow> char" where
  "py_lower_char c =
     (let n = of_char c :: nat
      in if (65 \<le> n \<and> n \<le> 90) \<or> (192 \<le> n \<and> n \<le> 222 \<and> n \<noteq> 215)
         then char_of (n + 32) else c)"

definition py_lower :: "string \<Rightarrow> string" where
  "py_lower s = map py_lower_char s"

definition token_char :: "char \<Rightarrow> bool" where
  \<comment> \<open>the character class \<open>[a-zA-Z0-9]\<close>\<close>
  "token_char c =
     (let n = of_char c :: nat
      in (97 \<le> n \<and> n \<le> 122) \<or> (65 \<le> n \<and> n \<le> 90) \<or> (48 \<le> n \<and> n \<le> 57))"

text \<open>
  \<open>re.findall(r'[a-zA-Z0-9]+', line)\<close>: the string is scanned from the left; where the
  pattern matches, the greedy match is recorded and the scan resumes at its end; where
  it does not, the scan moves on by one character.
\<close>

function re_findall :: "string \<Rightarrow> string list" where
  "re_findall [] = []"
| "re_findall (c # cs) =
     (if token_char c
      then takeWhile token_char (c # cs) # re_findall (dropWhile token_char cs)
      else re_findall cs)"
  by pat_completeness auto
termination
  by (relation "measure length") (auto simp: le_imp_less_Suc length_dropWhile_le)

text \<open>\<open>str.split(sep)\<close> with an explicit one-character separator.\<close>

fun split_acc :: "char \<Rightarrow> string \<Rightarrow> string \<Rightarrow> string list" where
  "split_acc sep field [] = [field]"
| "split_acc sep field (c # cs) =
     (if c = sep then field # split_acc sep [] cs else split_acc sep (field @ [c]) cs)"

definition py_split :: "char \<Rightarrow> string \<Rightarrow> string list" where
  "py_split sep s = split_acc sep [] s"

datatype error = ValueError

definition is_digit :: "char \<Rightarrow> bool" where
  "is_digit c = (48 \<le> (of_char c :: nat) \<and> (of_char c :: nat) \<le> 57)"

definition digit_val :: "char \<Rightarrow> nat" where
  "digit_val c = of_char c - 48"

definition int_space :: "char \<Rightarrow> bool" where
  \<comment> \<open>the whitespace \<open>int\<close> skips around a literal\<close>
  "int_space c = (of_char c \<in> {9, 10, 11, 12, 13, 32, 133, 160 :: nat})"

text \<open>
  The digits of a decimal literal after its first digit; a single underscore may stand
  between two digits.
\<close>

fun int_digits :: "nat \<Rightarrow> string \<Rightarrow> nat option" where
  "int_digits acc [] = Some acc"
| "int_digits acc (c # cs) =
     (if is_digit c then int_digits (10 * acc + digit_val c) cs
      else if c = CHR ''_'' then
        (case cs of
           [] \<Rightarrow> None
         | d # ds \<Rightarrow> if is_digit d then int_digits (10 * acc + digit_val d) ds else None)
      else None)"

definition int_literal :: "string \<Rightarrow> nat option" where
  "int_literal s =
     (case s of
        [] \<Rightarrow> None
      | c # cs \<Rightarrow> if is_digit c then int_digits (digit_val c) cs else None)"

definition py_int :: "string \<Rightarrow> error + int" where
  "py_int s =
     (case rev (dropWhile int_space (rev (dropWhile int_space s))) of
        [] \<Rightarrow> Inl ValueError
      | c # cs \<Rightarrow>
          (if c = CHR ''-'' then
             (case int_literal cs of None \<Rightarrow> Inl ValueError | Some n \<Rightarrow> Inr (- int n))
           else if c = CHR ''+'' then
             (case int_literal cs of None \<Rightarrow> Inl ValueError | Some n \<Rightarrow> Inr (int n))
           else
             (case int_literal (c # cs) of None \<Rightarrow> Inl ValueError | Some n \<Rightarrow> Inr (int n))))"

text \<open>The decimal text of an integer, as an f-string renders it.\<close>

fun nat_digits :: "nat \<Rightarrow> string" where
  "nat_digits n =
     (if n < 10 then [char_of (48 + n)]
      else nat_digits (n div 10) @ [char_of (48 + n mod 10)])"

declare nat_digits.simps [simp del]

definition py_str :: "int \<Rightarrow> string" where
  "py_str i = (if i < 0 then CHR ''-'' # nat_digits (nat (- i)) else nat_digits (nat i))"

section \<open>The mapper (\<open>mapper.py\<close>)\<close>

definition mapper_words :: "string \<Rightarrow> string list" where
  \<comment> \<open>the values of \<open>word\<close> that reach the \<open>print\<close> while one line is processed\<close>
  "mapper_words line0 =
     (let line = py_lower (py_strip line0)
      in if line = [] then []
         else filter (\<lambda>word. length word > 0) (re_findall line))"

definition mapper_line :: "string \<Rightarrow> string list" where
  "mapper_line line0 = map (\<lambda>word. word @ [TAB] @ ''1'') (mapper_words line0)"

definition mapper_main :: "string list \<Rightarrow> string list" where
  "mapper_main stdin = concat (map mapper_line stdin)"

text \<open>The same loop with the test \<open>len(word) > 0\<close> taken out.\<close>

definition mapper_words_unguarded :: "string \<Rightarrow> string list" where
  "mapper_words_unguarded line0 =
     (let line = py_lower (py_strip line0)
      in if line = [] then [] else re_findall line)"

definition mapper_main_unguarded :: "string list \<Rightarrow> string list" where
  "mapper_main_unguarded stdin =
     concat (map (\<lambda>line0. map (\<lambda>word. word @ [TAB] @ ''1'') (mapper_words_unguarded line0)) stdin)"

section \<open>The reducer (\<open>reducer.py\<close>)\<close>

record reducer_state =
  current_word :: "string option"
  current_count :: int
  emitted :: "(string \<times> int) list"

definition init_state :: reducer_state where
  "init_state = \<lparr>current_word = None, current_count = 0, emitted = []\<rparr>"

definition parse_pair :: "string \<Rightarrow> error + (string \<times> int)" where
  \<comment> \<open>the body of the \<open>try\<close>: unpacking the two fields, then \<open>int(count)\<close>\<close>
  "parse_pair line =
     (case py_split TAB line of
        [word, count] \<Rightarrow>
          (case py_int count of Inl e \<Rightarrow> Inl e | Inr n \<Rightarrow> Inr (word, n))
      | _ \<Rightarrow> Inl ValueError)"

definition body :: "reducer_state \<Rightarrow> string \<Rightarrow> reducer_state" where
  \<comment> \<open>one iteration of the loop over the input lines; \<open>emitted\<close> records the arguments
      of each \<open>print\<close>\<close>
  "body st line0 =
     (let line = py_strip line0
      in if line = [] then st
         else case parse_pair line of
                Inl ValueError \<Rightarrow> st
              | Inr (word, count) \<Rightarrow>
                  if current_word st = Some word
                  then st\<lparr>current_count := current_count st + count\<rparr>
                  else (case current_word st of
                          None \<Rightarrow> st
                        | Some w \<Rightarrow> st\<lparr>emitted := emitted st @ [(w, current_count st)]\<rparr>)
                       \<lparr>current_word := Some word, current_count := count\<rparr>)"

definition run_loop :: "string list \<Rightarrow> reducer_state" where
  "run_loop stdin = foldl body init_state stdin"

definition reducer_emits :: "string list \<Rightarrow> (string \<times> int) list" where
  \<comment> \<open>the loop, then the final \<open>print\<close> guarded by \<open>current_word is not None\<close>\<close>
  "reducer_emits stdin =
     (let st = run_loop stdin
      in case current_word st of
           None \<Rightarrow> emitted st
         | Some w \<Rightarrow> emitted st @ [(w, current_count st)])"

definition print_pair :: "string \<times> int \<Rightarrow> string" where
  "print_pair p = fst p @ [TAB] @ py_str (snd p)"

definition reducer_main :: "string list \<Rightarrow> string list" where
  "reducer_main stdin = map print_pair (reducer_emits stdin)"

section \<open>Notions used to state the properties\<close>




text \<open>The well-formed records of an input, in order: the lines the \<open>try\<close> block accepts.\<close>

definition records :: "string list \<Rightarrow> (string \<times> int) list" where
  "records stdin =
     concat (map (\<lambda>line0. case parse_pair (py_strip line0) of Inl e \<Rightarrow> [] | Inr r \<Rightarrow> [r]) stdin)"

text \<open>The part of the loop body that follows a successful parse.\<close>

definition feed :: "reducer_state \<Rightarrow> string \<times> int \<Rightarrow> reducer_state" where
  "feed st r =
     (if current_word st = Some (fst r)
      then st\<lparr>current_count := current_count st + snd r\<rparr>
      else (case current_word st of
              None \<Rightarrow> st
            | Some w \<Rightarrow> st\<lparr>emitted := emitted st @ [(w, current_count st)]\<rparr>)
           \<lparr>current_word := Some (fst r), current_count := snd r\<rparr>)"

definition flush :: "reducer_state \<Rightarrow> (string \<times> int) list" where
  "flush st =
     (case current_word st of
        None \<Rightarrow> emitted st
      | Some w \<Rightarrow> emitted st @ [(w, current_count st)])"

text \<open>
  The key runs of a sequence of records: its maximal contiguous subsequences of records
  that share a key, in order.
\<close>

function key_runs :: "('k \<times> 'v) list \<Rightarrow> ('k \<times> 'v) list list" where
  "key_runs [] = []"
| "key_runs (r # rs) =
     (r # takeWhile (\<lambda>x. fst x = fst r) rs) # key_runs (dropWhile (\<lambda>x. fst x = fst r) rs)"
  by pat_completeness auto
termination
  by (relation "measure length") (auto simp: le_imp_less_Suc length_dropWhile_le)

definition run_total :: "('k \<times> int) list \<Rightarrow> 'k \<times> int" where
  "run_total run = (fst (hd run), sum_list (map snd run))"

text \<open>
  The invariant of the loop, over the well-formed records consumed so far: before the
  first record no key is current; afterwards the current key is the key of the last
  record, and the running total is the sum of the counts of the records of the current
  contiguous run, that is, of the longest suffix of the consumed records with that key.
\<close>

definition run_invariant :: "(string \<times> int) list \<Rightarrow> reducer_state \<Rightarrow> bool" where
  "run_invariant consumed st =
     (case current_word st of
        None \<Rightarrow> consumed = [] \<and> current_count st = 0
      | Some k \<Rightarrow>
          consumed \<noteq> [] \<and> fst (last consumed) = k \<and>
          current_count st = sum_list (map snd (takeWhile (\<lambda>r. fst r = k) (rev consumed))))"

section \<open>Tokenization lemmas\<close>







lemma re_findall_nonempty: "[] \<notin> set (re_findall s)"
  by (induction s rule: re_findall.induct) auto

lemma re_findall_token_chars: "w \<in> set (re_findall s) \<Longrightarrow> c \<in> set w \<Longrightarrow> token_char c"
  by (induction s rule: re_findall.induct) (auto split: if_splits dest: set_takeWhileD)






lemma token_char_not_space: "py_isspace c \<Longrightarrow> \<not> token_char c"
  by (auto simp: py_isspace_def token_char_def Let_def)



lemma token_char_lower: "token_char (py_lower_char c) = token_char c"
  by (simp add: token_char_def py_lower_char_def Let_def)


section \<open>Aggregation lemmas\<close>

subsection \<open>The loop as a fold over the well-formed records\<close>

lemma py_split_Nil: "py_split sep [] = [[]]"
  by (simp add: py_split_def)

lemma parse_pair_Nil: "parse_pair [] = Inl ValueError"
  by (simp add: parse_pair_def py_split_Nil)

lemma body_feed:
  "body st line0 = (case parse_pair (py_strip line0) of Inl e \<Rightarrow> st | Inr r \<Rightarrow> feed st r)"
  by (cases "py_strip line0 = []")
     (auto simp: body_def feed_def parse_pair_Nil Let_def split: sum.splits error.splits prod.splits)

lemma body_records: "body st line0 = foldl feed st (records [line0])"
  by (simp add: body_feed records_def split: sum.splits)

lemma records_append: "records (xs @ ys) = records xs @ records ys"
  by (simp add: records_def)

lemma records_Cons: "records (x # xs) = records [x] @ records xs"
  by (simp add: records_def)

lemma foldl_body_records: "foldl body st stdin = foldl feed st (records stdin)"
proof (induction stdin arbitrary: st)
  case Nil
  show ?case by (simp add: records_def)
next
  case (Cons l ls)
  have "foldl body st (l # ls) = foldl body (body st l) ls" by simp
  also have "\<dots> = foldl feed (foldl feed st (records [l])) (records ls)"
    by (simp add: Cons.IH body_records)
  also have "\<dots> = foldl feed st (records (l # ls))"
    by (subst (2) records_Cons) simp
  finally show ?case .
qed

lemma reducer_emits_flush: "reducer_emits stdin = flush (foldl feed init_state (records stdin))"
  by (simp add: reducer_emits_def flush_def run_loop_def foldl_body_records Let_def)

lemma key_runs_same_key:
  "key_runs ((k, t) # (k, c) # rs) =
     ((k, t) # (k, c) # takeWhile (\<lambda>x. fst x = k) rs) # key_runs (dropWhile (\<lambda>x. fst x = k) rs)"
  by simp

lemma current_word_feed: "current_word (feed st r) = Some (fst r)"
  by (simp add: feed_def split: option.splits)

lemma current_count_feed:
  "current_count (feed st r) =
     (if current_word st = Some (fst r) then current_count st + snd r else snd r)"
  by (simp add: feed_def split: option.splits)

lemma emitted_feed:
  "emitted (feed st r) =
     (case current_word st of
        None \<Rightarrow> emitted st
      | Some w \<Rightarrow> if w = fst r then emitted st else emitted st @ [(w, current_count st)])"
  by (simp add: feed_def split: option.splits)

lemma flush_foldl_feed:
  "flush (foldl feed st recs) =
     emitted st @ map run_total (key_runs ((case current_word st of None \<Rightarrow> [] | Some w \<Rightarrow> [(w, current_count st)]) @ recs))"
proof (induction recs arbitrary: st)
  case Nil
  show ?case by (simp add: flush_def run_total_def split: option.splits)
next
  case (Cons r rs)
  obtain k c where r: "r = (k, c)" by (cases r)
  have step: "flush (foldl feed st (r # rs)) =
      emitted (feed st r) @ map run_total (key_runs ((k, current_count (feed st r)) # rs))"
    by (simp add: Cons.IH current_word_feed r)
  show ?case
  proof (cases "current_word st")
    case None
    then show ?thesis
      unfolding step by (simp add: emitted_feed current_count_feed r)
  next
    case (Some w)
    show ?thesis
    proof (cases "w = k")
      case True
      with Some show ?thesis
        unfolding step by (simp add: emitted_feed current_count_feed r run_total_def)
    next
      case False
      with Some show ?thesis
        unfolding step by (simp add: emitted_feed current_count_feed r run_total_def)
    qed
  qed
qed

lemma reducer_emits_key_runs: "reducer_emits stdin = map run_total (key_runs (records stdin))"
  by (simp add: reducer_emits_flush flush_foldl_feed init_state_def)

lemma concat_key_runs: "concat (key_runs rs) = rs"
  by (induction rs rule: key_runs.induct) auto




subsection \<open>The test on the length of a word\<close>

lemma mapper_words_unguarded_eq: "mapper_words line0 = mapper_words_unguarded line0"
proof -
  have "filter (\<lambda>word. length word > 0) (re_findall s) = re_findall s" for s
    using re_findall_nonempty [of s] by (auto simp: filter_id_conv)
  then show ?thesis
    by (simp add: mapper_words_def mapper_words_unguarded_def Let_def)
qed

lemma space_not_token: "token_char c \<Longrightarrow> \<not> py_isspace c"
  using token_char_not_space by blast

lemma py_strip_single: "\<not> py_isspace c \<Longrightarrow> py_strip [c] = [c]"
  by (simp add: py_strip_def)

lemma mapper_words_single: "token_char c \<Longrightarrow> mapper_words [c] = [[py_lower_char c]]"
  by (simp add: mapper_words_def py_strip_single space_not_token py_lower_def token_char_lower)

subsection \<open>Key runs of concatenated records\<close>





subsection \<open>The invariant of the running total\<close>

lemma records_single:
  "records [line0] = (case parse_pair (py_strip line0) of Inl e \<Rightarrow> [] | Inr r \<Rightarrow> [r])"
  by (simp add: records_def)

lemma run_invariant_init: "run_invariant [] init_state"
  by (simp add: run_invariant_def init_state_def)

lemma run_invariant_feed:
  assumes "run_invariant consumed st"
  shows "run_invariant (consumed @ [r]) (feed st r)"
proof (cases "current_word st")
  case None
  with assms show ?thesis
    by (simp add: run_invariant_def current_word_feed current_count_feed)
next
  case (Some k)
  with assms have c: "consumed \<noteq> []" "fst (last consumed) = k"
    "current_count st = sum_list (map snd (takeWhile (\<lambda>r. fst r = k) (rev consumed)))"
    by (simp_all add: run_invariant_def)
  from c(1) obtain ys y where consumed: "consumed = ys @ [y]" by (cases consumed rule: rev_cases) auto
  with c(2) have y: "fst y = k" by simp
  show ?thesis
  proof (cases "k = fst r")
    case True
    with Some c(3) show ?thesis
      by (simp add: run_invariant_def current_word_feed current_count_feed)
  next
    case False
    with Some y show ?thesis
      by (simp add: run_invariant_def current_word_feed current_count_feed consumed)
  qed
qed

lemma run_invariant_body:
  "run_invariant consumed st \<Longrightarrow> run_invariant (consumed @ records [line0]) (body st line0)"
  by (simp add: body_feed records_single run_invariant_feed split: sum.splits)

lemma run_loop_snoc: "run_loop (stdin @ [line0]) = body (run_loop stdin) line0"
  by (simp add: run_loop_def)

lemma run_invariant_run_loop: "run_invariant (records stdin) (run_loop stdin)"
proof (induction stdin rule: rev_induct)
  case Nil
  show ?case by (simp add: run_loop_def records_def run_invariant_init)
next
  case (snoc l ls)
  then show ?case
    by (simp add: run_loop_snoc records_append run_invariant_body)
qed

subsection \<open>The state after the loop\<close>







subsection \<open>Splitting a line at its tabs\<close>

lemma length_split_acc: "length (split_acc sep field s) = Suc (count_list s sep)"
  by (induction s arbitrary: field) auto

lemma split_acc_no_sep: "sep \<notin> set s \<Longrightarrow> split_acc sep field s = [field @ s]"
  by (induction s arbitrary: field) auto

lemma split_acc_first: "sep \<notin> set a \<Longrightarrow> split_acc sep field (a @ sep # b) = (field @ a) # split_acc sep [] b"
  by (induction a arbitrary: field) auto

lemma py_split_two:
  "sep \<notin> set a \<Longrightarrow> sep \<notin> set b \<Longrightarrow> py_split sep (a @ sep # b) = [a, b]"
  by (simp add: py_split_def split_acc_first split_acc_no_sep)

lemma length_py_split: "length (py_split sep s) = Suc (count_list s sep)"
  by (simp add: py_split_def length_split_acc)

lemma parse_pair_fields:
  "length (py_split TAB line) \<noteq> 2 \<Longrightarrow> parse_pair line = Inl ValueError"
  by (auto simp: parse_pair_def split: list.splits)

lemma parse_pair_no_tab: "TAB \<notin> set line \<Longrightarrow> parse_pair line = Inl ValueError"
  by (rule parse_pair_fields) (simp add: length_py_split)

lemma parse_pair_many_tabs: "2 \<le> count_list line TAB \<Longrightarrow> parse_pair line = Inl ValueError"
  by (rule parse_pair_fields) (simp add: length_py_split)

lemma parse_pair_bad_count:
  assumes "py_int count = Inl ValueError"
  shows "parse_pair (word @ [TAB] @ count) = Inl ValueError"
proof (cases "TAB \<in> set word \<or> TAB \<in> set count")
  case True
  then have "count_list word TAB \<noteq> 0 \<or> count_list count TAB \<noteq> 0"
    by (simp add: count_list_0_iff)
  then have "2 \<le> count_list (word @ [TAB] @ count) TAB" by auto
  then show ?thesis by (rule parse_pair_many_tabs)
next
  case False
  then have "py_split TAB (word @ [TAB] @ count) = [word, count]"
    by (simp add: py_split_two)
  with assms show ?thesis by (simp add: parse_pair_def)
qed

lemma body_skip: "parse_pair (py_strip line0) = Inl ValueError \<Longrightarrow> body st line0 = st"
  by (simp add: body_feed)

subsection \<open>Stripping and integer literals\<close>

lemma strip_core:
  assumes "s \<noteq> []" "\<not> P (hd s)" "\<not> P (last s)"
    and "\<forall>c \<in> set pre. P c" "\<forall>c \<in> set post. P c"
  shows "rev (dropWhile P (rev (dropWhile P (pre @ s @ post)))) = s"
proof -
  obtain x xs where s: "s = x # xs" using assms(1) by (cases s) auto
  obtain ys y where s': "s = ys @ [y]" using assms(1) by (cases s rule: rev_cases) auto
  have "dropWhile P (pre @ (s @ post)) = dropWhile P (s @ post)"
    by (rule dropWhile_append2) (use assms(4) in auto)
  also have "\<dots> = s @ post"
    using assms(2) s by simp
  finally have front: "dropWhile P (pre @ s @ post) = s @ post" .
  have "dropWhile P (rev post @ rev s) = dropWhile P (rev s)"
    by (rule dropWhile_append2) (use assms(5) in auto)
  also have "\<dots> = rev s"
    using assms(3) s' by simp
  finally have rear: "dropWhile P (rev (s @ post)) = rev s" by simp
  show ?thesis by (simp only: front rear rev_rev_ident)
qed

lemma py_strip_core:
  "s \<noteq> [] \<Longrightarrow> \<not> py_isspace (hd s) \<Longrightarrow> \<not> py_isspace (last s) \<Longrightarrow>
   \<forall>c \<in> set pre. py_isspace c \<Longrightarrow> \<forall>c \<in> set post. py_isspace c \<Longrightarrow>
   py_strip (pre @ s @ post) = s"
  unfolding py_strip_def by (rule strip_core)

lemma digit_not_space: "is_digit c \<Longrightarrow> \<not> int_space c \<and> \<not> py_isspace c"
  by (auto simp: is_digit_def int_space_def py_isspace_def)

lemma digit_not_special: "is_digit c \<Longrightarrow> c \<noteq> TAB \<and> c \<noteq> CHR ''-'' \<and> c \<noteq> CHR ''+'' \<and> c \<noteq> CHR ''_''"
  by (auto simp: is_digit_def)

lemma int_digits_chars: "int_digits a s = Some n \<Longrightarrow> c \<in> set s \<Longrightarrow> is_digit c \<or> c = CHR ''_''"
proof (induction a s rule: int_digits.induct)
  case (1 acc)
  then show ?case by simp
next
  case (2 acc d ds)
  show ?case
  proof (cases "is_digit d")
    case True
    with 2 show ?thesis by auto
  next
    case False
    with 2(3) have u: "d = CHR ''_''" by (simp split: if_splits)
    with False 2(3) obtain e es where ds: "ds = e # es" and e: "is_digit e"
      and r: "int_digits (10 * acc + digit_val e) es = Some n"
      by (cases ds) (auto split: if_splits)
    from 2(2) [OF False u ds e r] 2(4) u ds e show ?thesis by auto
  qed
qed

lemma int_digits_last: "int_digits a s = Some n \<Longrightarrow> s \<noteq> [] \<Longrightarrow> is_digit (last s)"
proof (induction a s rule: int_digits.induct)
  case (1 acc)
  then show ?case by simp
next
  case (2 acc d ds)
  show ?case
  proof (cases "is_digit d")
    case True
    with 2(1,3) show ?thesis by (cases "ds = []") auto
  next
    case False
    with 2(3) have u: "d = CHR ''_''" by (simp split: if_splits)
    with False 2(3) obtain e es where ds: "ds = e # es" and e: "is_digit e"
      and r: "int_digits (10 * acc + digit_val e) es = Some n"
      by (cases ds) (auto split: if_splits)
    from 2(2) [OF False u ds e r] ds e show ?thesis by (cases "es = []") auto
  qed
qed

lemma int_literal_shape:
  assumes "int_literal s = Some n"
  shows "s \<noteq> []" "is_digit (hd s)" "is_digit (last s)" "\<forall>c \<in> set s. is_digit c \<or> c = CHR ''_''"
proof -
  from assms obtain c cs where s: "s = c # cs" and c: "is_digit c" and d: "int_digits (digit_val c) cs = Some n"
    by (auto simp: int_literal_def split: list.splits if_splits)
  show "s \<noteq> []" "is_digit (hd s)" using s c by simp_all
  show "is_digit (last s)" using s c int_digits_last [OF d] by (cases "cs = []") simp_all
  show "\<forall>c \<in> set s. is_digit c \<or> c = CHR ''_''" using s c int_digits_chars [OF d] by auto
qed

lemma int_literal_no_tab: "int_literal s = Some n \<Longrightarrow> TAB \<notin> set s"
  using int_literal_shape(4) digit_not_special by fastforce

lemma py_int_core:
  assumes "t \<noteq> []" "\<not> int_space (hd t)" "\<not> int_space (last t)"
    and "\<forall>c \<in> set sp. int_space c" "\<forall>c \<in> set sp'. int_space c"
  shows "py_int (sp @ t @ sp') = py_int t"
proof -
  have "rev (dropWhile int_space (rev (dropWhile int_space (sp @ t @ sp')))) = t"
    using assms by (rule strip_core)
  moreover have "rev (dropWhile int_space (rev (dropWhile int_space t))) = t"
    using strip_core [OF assms(1-3), of "[]" "[]"] by simp
  ultimately show ?thesis by (simp add: py_int_def)
qed

lemma py_int_unsigned:
  assumes "int_literal ds = Some n"
  shows "py_int ds = Inr (int n)"
proof -
  note sh = int_literal_shape [OF assms]
  obtain c cs where ds: "ds = c # cs" using sh(1) by (cases ds) auto
  have c: "is_digit c" using sh(2) ds by simp
  have "rev (dropWhile int_space (rev (dropWhile int_space ds))) = ds"
    using strip_core [of ds int_space "[]" "[]"] sh digit_not_space by simp
  then show ?thesis
    using assms c digit_not_special [of c] by (simp add: py_int_def ds)
qed

lemma py_int_signed:
  assumes "int_literal ds = Some n"
  shows "py_int (CHR ''+'' # ds) = Inr (int n)" "py_int (CHR ''-'' # ds) = Inr (- int n)"
proof -
  note sh = int_literal_shape [OF assms]
  have l: "last (c # ds) = last ds" for c using sh(1) by simp
  have p: "rev (dropWhile int_space (rev (dropWhile int_space (CHR ''+'' # ds)))) = CHR ''+'' # ds"
    using strip_core [of "CHR ''+'' # ds" int_space "[]" "[]"] sh digit_not_space
    by (simp add: l int_space_def)
  have m: "rev (dropWhile int_space (rev (dropWhile int_space (CHR ''-'' # ds)))) = CHR ''-'' # ds"
    using strip_core [of "CHR ''-'' # ds" int_space "[]" "[]"] sh digit_not_space
    by (simp add: l int_space_def)
  show "py_int (CHR ''+'' # ds) = Inr (int n)"
    unfolding py_int_def p using assms by simp
  show "py_int (CHR ''-'' # ds) = Inr (- int n)"
    unfolding py_int_def m using assms by simp
qed

text \<open>The sign of a literal: none, \<open>+\<close> or \<open>-\<close>.\<close>

lemma py_int_lenient:
  assumes "int_literal ds = Some n" "sg \<in> {[], ''+'', ''-''}"
    and "\<forall>c \<in> set sp. int_space c" "\<forall>c \<in> set sp'. int_space c"
  shows "py_int (sp @ (sg @ ds) @ sp') = Inr (if sg = ''-'' then - int n else int n)"
proof -
  note sh = int_literal_shape [OF assms(1)]
  have ne: "sg @ ds \<noteq> []" using sh(1) by simp
  have hd: "\<not> int_space (hd (sg @ ds))"
    using assms(2) sh digit_not_space by (auto simp: int_space_def)
  have la: "\<not> int_space (last (sg @ ds))"
    using sh digit_not_space by simp
  have "py_int (sp @ (sg @ ds) @ sp') = py_int (sg @ ds)"
    using ne hd la assms(3,4) by (rule py_int_core)
  also have "\<dots> = Inr (if sg = ''-'' then - int n else int n)"
    using assms(2) py_int_unsigned [OF assms(1)] py_int_signed [OF assms(1)] by auto
  finally show ?thesis .
qed

lemma parse_pair_lenient:
  assumes key: "k \<noteq> []" "TAB \<notin> set k" "\<not> py_isspace (hd k)"
    and lit: "int_literal ds = Some n" "sg \<in> {[], ''+'', ''-''}"
    and ws: "\<forall>c \<in> set pre. py_isspace c" "\<forall>c \<in> set post. py_isspace c"
            "\<forall>c \<in> set sp. int_space c \<and> c \<noteq> TAB"
  shows "parse_pair (py_strip (pre @ k @ [TAB] @ sp @ sg @ ds @ post))
           = Inr (k, if sg = ''-'' then - int n else int n)"
proof -
  note sh = int_literal_shape [OF lit(1)]
  let ?core = "k @ [TAB] @ sp @ sg @ ds"
  have hd: "hd ?core = hd k" using key(1) by simp
  have la: "last ?core = last ds" using sh(1) by simp
  have "py_strip (pre @ ?core @ post) = ?core"
    using key(3) sh(3) digit_not_space ws(1,2) by (intro py_strip_core) (simp_all only: hd la, simp_all)
  then have strip: "py_strip (pre @ k @ [TAB] @ sp @ sg @ ds @ post) = ?core"
    by (simp only: append_assoc)
  have "sg = [] \<or> sg = ''+'' \<or> sg = ''-''"
    using lit(2) by simp
  then have "TAB \<notin> set sg"
    by (elim disjE) simp_all
  moreover have "TAB \<notin> set sp"
    using ws(3) by blast
  ultimately have notab: "TAB \<notin> set (sp @ sg @ ds)"
    using int_literal_no_tab [OF lit(1)] by simp
  have split: "py_split TAB ?core = [k, sp @ sg @ ds]"
    using py_split_two [OF key(2) notab] by simp
  have "\<forall>c \<in> set sp. int_space c"
    using ws(3) by blast
  with lit have "py_int (sp @ (sg @ ds) @ []) = Inr (if sg = ''-'' then - int n else int n)"
    by (intro py_int_lenient) simp_all
  then have "py_int (sp @ sg @ ds) = Inr (if sg = ''-'' then - int n else int n)"
    by (simp only: append_Nil2 append_assoc)
  then show ?thesis
    unfolding strip parse_pair_def split by simp
qed

subsection \<open>The decimal text of an integer\<close>











subsection \<open>The lines of the mapper as records\<close>

lemma sum_run_totals: "sum_list (map snd (map run_total runs)) = sum_list (map snd (concat runs))"
  by (induction runs) (simp_all add: run_total_def)

lemma sum_reducer_emits:
  "sum_list (map snd (reducer_emits stdin)) = sum_list (map snd (records stdin))"
  by (simp only: reducer_emits_key_runs sum_run_totals concat_key_runs)

lemma token_not_tab: "token_char c \<Longrightarrow> c \<noteq> TAB"
  by (auto simp: token_char_def)

lemma mapper_words_re_findall: "mapper_words line0 = re_findall (py_lower (py_strip line0))"
  by (simp add: mapper_words_unguarded_eq mapper_words_unguarded_def Let_def)

lemma mapper_word_shape:
  assumes "w \<in> set (mapper_words line0)"
  shows "w \<noteq> []" "TAB \<notin> set w" "\<not> py_isspace (hd w)"
proof -
  from assms have w: "w \<in> set (re_findall (py_lower (py_strip line0)))"
    by (simp add: mapper_words_re_findall)
  then show ne: "w \<noteq> []" using re_findall_nonempty by metis
  have tc: "token_char c" if "c \<in> set w" for c
    using w that by (rule re_findall_token_chars)
  then show "TAB \<notin> set w" using token_not_tab by blast
  from ne tc have "token_char (hd w)" by simp
  then show "\<not> py_isspace (hd w)" by (rule space_not_token)
qed

lemma int_literal_one: "int_literal ''1'' = Some 1"
  by code_simp

lemma parse_mapper_word:
  assumes "w \<in> set (mapper_words line0)"
  shows "parse_pair (py_strip (w @ [TAB] @ ''1'' @ [NEWLINE])) = Inr (w, 1)"
proof -
  have "parse_pair (py_strip ([] @ w @ [TAB] @ [] @ [] @ ''1'' @ [NEWLINE]))
      = Inr (w, if [] = ''-'' then - int 1 else int 1)"
    using mapper_word_shape [OF assms] int_literal_one
    by (rule parse_pair_lenient) (simp_all add: py_isspace_def)
  then show ?thesis by simp
qed

lemma parse_mapper_line:
  assumes "l \<in> set (mapper_main text)"
  shows "\<exists>w. parse_pair (py_strip (l @ [NEWLINE])) = Inr (w, 1)"
proof -
  from assms obtain line0 w where "w \<in> set (mapper_words line0)" and "l = w @ [TAB] @ ''1''"
    by (auto simp: mapper_main_def mapper_line_def)
  then show ?thesis using parse_mapper_word by fastforce
qed

lemma sum_records_ones:
  "(\<And>l. l \<in> set ls \<Longrightarrow> \<exists>w. parse_pair (py_strip (l @ [NEWLINE])) = Inr (w, 1)) \<Longrightarrow>
   sum_list (map snd (records (map (\<lambda>l. l @ [NEWLINE]) ls))) = int (length ls)"
proof (induction ls)
  case Nil
  show ?case by (simp add: records_def)
next
  case (Cons l ls)
  from Cons.prems [of l] obtain w where w: "parse_pair (py_strip (l @ [NEWLINE])) = Inr (w, 1)"
    by auto
  have "sum_list (map snd (records (map (\<lambda>l. l @ [NEWLINE]) ls))) = int (length ls)"
    using Cons.prems by (intro Cons.IH) auto
  moreover have "records (map (\<lambda>l. l @ [NEWLINE]) (l # ls))
      = (w, 1) # records (map (\<lambda>l. l @ [NEWLINE]) ls)"
    using w by (simp add: records_def)
  ultimately show ?case by simp
qed

lemma count_list_length:
  assumes "\<forall>x. count_list ys x = count_list xs x"
  shows "length ys = length xs" "set ys = set xs"
proof -
  show s: "set ys = set xs"
    using assms by (metis count_list_0_iff subsetI subset_antisym)
  have "length ys = sum (count_list ys) (set ys)"
    by (simp add: sum_count_set)
  also have "\<dots> = sum (count_list xs) (set xs)"
    using assms s by simp
  also have "\<dots> = length xs"
    by (simp add: sum_count_set)
  finally show "length ys = length xs" .
qed

subsection \<open>The tokens of a line\<close>










lemma mapper_main_append: "mapper_main (xs @ ys) = mapper_main xs @ mapper_main ys"
  by (simp add: mapper_main_def)

section \<open>Properties of the mapper and the reducer\<close>

text \<open>
  C7: the test \<open>len(word) > 0\<close> never filters a token. The mapper with the test and the
  mapper without it print the same lines on every input; no match of the pattern is
  empty; a line that is a single character of the class is printed as its own token,
  lowercased.
\<close>

theorem mapper_guard_never_filters:
  "mapper_main stdin = mapper_main_unguarded stdin
   \<and> [] \<notin> set (re_findall s)
   \<and> (token_char c \<longrightarrow> mapper_line [c] = [[py_lower_char c] @ [TAB] @ ''1''])"
proof -
  have "mapper_line = (\<lambda>line0. map (\<lambda>word. word @ [TAB] @ ''1'') (mapper_words_unguarded line0))"
    by (rule ext) (simp add: mapper_line_def mapper_words_unguarded_eq)
  then have "mapper_main stdin = mapper_main_unguarded stdin"
    by (simp add: mapper_main_def mapper_main_unguarded_def)
  moreover have "token_char c \<longrightarrow> mapper_line [c] = [[py_lower_char c] @ [TAB] @ ''1'']"
    by (simp add: mapper_line_def mapper_words_single)
  ultimately show ?thesis
    using re_findall_nonempty [of s] by simp
qed

theorem mapper_guard_never_filters_witness:
  "token_char CHR ''A''
   \<and> mapper_main [''A b''] = mapper_main_unguarded [''A b'']
   \<and> mapper_line ''A'' = [''a'' @ [TAB] @ ''1'']"
proof -
  have t: "token_char CHR ''A''" by (simp add: token_char_def)
  have l: "py_lower_char CHR ''A'' = CHR ''a''" by code_simp
  from mapper_guard_never_filters [of "[''A b'']" "[]" "CHR ''A''"] t l show ?thesis by simp
qed



text \<open>
  C6: the invariant of the running total. It holds before the loop, every iteration of
  the loop preserves it, whatever the line (a record of the current key, a record of
  another key, a malformed line), and so it holds after every prefix of the input:
  while a key is current, the running total is the sum of the counts of the well-formed
  records of the current contiguous run.
\<close>

theorem running_total_invariant:
  "run_invariant [] init_state
   \<and> (run_invariant consumed st \<longrightarrow> run_invariant (consumed @ records [line0]) (body st line0))
   \<and> run_invariant (records stdin) (run_loop stdin)"
  using run_invariant_init run_invariant_body run_invariant_run_loop by blast

theorem running_total_invariant_witness:
  "run_invariant [(''a'', 2), (''b'', 1), (''b'', 4)]
      \<lparr>current_word = Some ''b'', current_count = 5, emitted = [(''a'', 2)]\<rparr>
   \<and> run_invariant ([(''a'', 2), (''b'', 1), (''b'', 4)] @ records [''b'' @ [TAB] @ ''3''])
      (body \<lparr>current_word = Some ''b'', current_count = 5, emitted = [(''a'', 2)]\<rparr> (''b'' @ [TAB] @ ''3''))
   \<and> current_count
      (body \<lparr>current_word = Some ''b'', current_count = 5, emitted = [(''a'', 2)]\<rparr> (''b'' @ [TAB] @ ''3'')) = 8"
proof -
  let ?st = "\<lparr>current_word = Some ''b'', current_count = 5, emitted = [(''a'', 2)]\<rparr>"
  have h: "run_invariant [(''a'', 2), (''b'', 1), (''b'', 4)] ?st"
    by (simp add: run_invariant_def)
  have c: "current_count (body ?st (''b'' @ [TAB] @ ''3'')) = 8"
    by code_simp
  from running_total_invariant [of "[(''a'', 2), (''b'', 1), (''b'', 4)]" ?st "''b'' @ [TAB] @ ''3''" "[]"] h c
  show ?thesis by blast
qed



text \<open>
  C5: malformed lines are skipped. A line the \<open>try\<close> block rejects changes neither the
  current key, nor the running total, nor what has been printed, and the reducer
  prints for an input that holds such a line what it prints for the input without the
  line. The block rejects a stripped line that holds no tab, one that holds two tabs or
  more, and one whose count field \<open>int\<close> rejects.
\<close>

theorem malformed_line_skipped:
  "(TAB \<notin> set (py_strip line0) \<longrightarrow> parse_pair (py_strip line0) = Inl ValueError)
   \<and> (2 \<le> count_list (py_strip line0) TAB \<longrightarrow> parse_pair (py_strip line0) = Inl ValueError)
   \<and> (py_strip line0 = word @ [TAB] @ count \<and> py_int count = Inl ValueError
        \<longrightarrow> parse_pair (py_strip line0) = Inl ValueError)
   \<and> (parse_pair (py_strip line0) = Inl ValueError \<longrightarrow>
        body st line0 = st
        \<and> run_loop (before @ [line0] @ after) = run_loop (before @ after)
        \<and> reducer_emits (before @ [line0] @ after) = reducer_emits (before @ after)
        \<and> reducer_main (before @ [line0] @ after) = reducer_main (before @ after))"
proof -
  have skip: "run_loop (before @ [line0] @ after) = run_loop (before @ after)
      \<and> reducer_emits (before @ [line0] @ after) = reducer_emits (before @ after)
      \<and> reducer_main (before @ [line0] @ after) = reducer_main (before @ after)"
    if "parse_pair (py_strip line0) = Inl ValueError"
    using that by (simp add: run_loop_def body_skip reducer_main_def reducer_emits_def)
  show ?thesis
    using parse_pair_no_tab [of "py_strip line0"] parse_pair_many_tabs [of "py_strip line0"]
      parse_pair_bad_count [of count word] body_skip [of line0 st] skip
    by auto
qed

theorem malformed_line_skipped_witness:
  "TAB \<notin> set (py_strip ''oops'')
   \<and> py_strip (''word'' @ [TAB] @ ''NaN'') = ''word'' @ [TAB] @ ''NaN'' \<and> py_int ''NaN'' = Inl ValueError
   \<and> 2 \<le> count_list (py_strip (''a'' @ [TAB] @ ''1'' @ [TAB] @ ''2'')) TAB
   \<and> reducer_emits ([''a'' @ [TAB] @ ''1''] @ [''oops''] @ [''a'' @ [TAB] @ ''2'']) = [(''a'', 3)]
   \<and> reducer_emits ([''a'' @ [TAB] @ ''1''] @ [''word'' @ [TAB] @ ''NaN''] @ [''a'' @ [TAB] @ ''2'']) = [(''a'', 3)]
   \<and> reducer_emits ([''a'' @ [TAB] @ ''1''] @ [''a'' @ [TAB] @ ''1'' @ [TAB] @ ''2''] @ [''a'' @ [TAB] @ ''2'']) = [(''a'', 3)]"
proof -
  let ?b = "[''a'' @ [TAB] @ ''1'']" and ?a = "[''a'' @ [TAB] @ ''2'']"
  have h1: "TAB \<notin> set (py_strip ''oops'')" by code_simp
  have h2: "py_strip (''word'' @ [TAB] @ ''NaN'') = ''word'' @ [TAB] @ ''NaN''" by code_simp
  have h3: "py_int ''NaN'' = Inl ValueError" by code_simp
  have h4: "2 \<le> count_list (py_strip (''a'' @ [TAB] @ ''1'' @ [TAB] @ ''2'')) TAB" by code_simp
  have base: "reducer_emits (?b @ ?a) = [(''a'', 3)]" by code_simp
  have 1: "reducer_emits (?b @ [''oops''] @ ?a) = [(''a'', 3)]"
    using malformed_line_skipped [of "''oops''" _ _ _ ?b ?a] h1 base by metis
  have 2: "reducer_emits (?b @ [''word'' @ [TAB] @ ''NaN''] @ ?a) = [(''a'', 3)]"
    using malformed_line_skipped [of "''word'' @ [TAB] @ ''NaN''" "''word''" "''NaN''" _ ?b ?a] h2 h3 base by metis
  have 3: "reducer_emits (?b @ [''a'' @ [TAB] @ ''1'' @ [TAB] @ ''2''] @ ?a) = [(''a'', 3)]"
    using malformed_line_skipped [of "''a'' @ [TAB] @ ''1'' @ [TAB] @ ''2''" _ _ _ ?b ?a] h4 base by metis
  from h1 h2 h3 h4 1 2 3 show ?thesis by blast
qed





text \<open>
  C2: conservation of the total count. Let the lines the mapper prints for a text be
  handed to the reducer, each with its line terminator, in any order that keeps every
  line as often as it was printed (the sorted order is one). Then every line is a
  well-formed record of count 1, and the counts the reducer prints add up to the number
  of lines the mapper printed.
\<close>

theorem pipeline_conserves_count:
  assumes "\<forall>l. count_list ys l = count_list (mapper_main text) l"
  shows "sum_list (map snd (reducer_emits (map (\<lambda>l. l @ [NEWLINE]) ys)))
           = int (length (mapper_main text))
     \<and> length (records (map (\<lambda>l. l @ [NEWLINE]) ys)) = length (mapper_main text)"
proof -
  note p = count_list_length [OF assms]
  have ok: "\<exists>w. parse_pair (py_strip (l @ [NEWLINE])) = Inr (w, 1)" if "l \<in> set ys" for l
    using that p(2) parse_mapper_line by blast
  have "sum_list (map snd (reducer_emits (map (\<lambda>l. l @ [NEWLINE]) ys))) = int (length ys)"
    using ok by (simp only: sum_reducer_emits sum_records_ones)
  moreover have "length (records (map (\<lambda>l. l @ [NEWLINE]) ys)) = length ys"
    using ok
  proof (induction ys)
    case Nil
    show ?case by (simp add: records_def)
  next
    case (Cons l ls)
    from Cons.prems [of l] obtain w where "parse_pair (py_strip (l @ [NEWLINE])) = Inr (w, 1)"
      by auto
    moreover have "length (records (map (\<lambda>l. l @ [NEWLINE]) ls)) = length ls"
      using Cons.prems by (intro Cons.IH) auto
    ultimately show ?case by (simp add: records_def)
  qed
  ultimately show ?thesis using p(1) by simp
qed

theorem pipeline_conserves_count_witness:
  "mapper_main [''b a'', ''A, c!''] = [''b'' @ [TAB] @ ''1'', ''a'' @ [TAB] @ ''1'', ''a'' @ [TAB] @ ''1'', ''c'' @ [TAB] @ ''1'']
   \<and> reducer_emits (map (\<lambda>l. l @ [NEWLINE])
        [''a'' @ [TAB] @ ''1'', ''a'' @ [TAB] @ ''1'', ''b'' @ [TAB] @ ''1'', ''c'' @ [TAB] @ ''1''])
       = [(''a'', 2), (''b'', 1), (''c'', 1)]
   \<and> sum_list (map snd (reducer_emits (map (\<lambda>l. l @ [NEWLINE])
        [''a'' @ [TAB] @ ''1'', ''a'' @ [TAB] @ ''1'', ''b'' @ [TAB] @ ''1'', ''c'' @ [TAB] @ ''1''])))
       = int (length (mapper_main [''b a'', ''A, c!'']))"
proof -
  let ?ys = "[''a'' @ [TAB] @ ''1'', ''a'' @ [TAB] @ ''1'', ''b'' @ [TAB] @ ''1'', ''c'' @ [TAB] @ ''1'']"
  have m: "mapper_main [''b a'', ''A, c!'']
      = [''b'' @ [TAB] @ ''1'', ''a'' @ [TAB] @ ''1'', ''a'' @ [TAB] @ ''1'', ''c'' @ [TAB] @ ''1'']"
    by code_simp
  have e: "reducer_emits (map (\<lambda>l. l @ [NEWLINE]) ?ys) = [(''a'', 2), (''b'', 1), (''c'', 1)]"
    by code_simp
  have h: "\<forall>l. count_list ?ys l = count_list (mapper_main [''b a'', ''A, c!'']) l"
    unfolding m by simp
  from pipeline_conserves_count [OF h] m e show ?thesis by blast
qed





end
